theory Spec2Isabelle
  imports Complex_Main
begin

section \<open>Power formula (utils/powerCalculation.ts)\<close>

text \<open>
  A TypeScript \<^verbatim>\<open>number\<close> is a binary64 floating-point number.  A number that
  holds a step count, a power level or an entity id is modelled by the integer it
  holds, an \<open>int\<close>; sums and differences of such numbers are taken to be exact.
  The division in \<^verbatim>\<open>calculatePowerLevelFromSteps\<close> is modelled as the machine
  performs it: the exact quotient of the two integers is rounded to the nearest
  number with a significand of 53 bits, ties to the even significand, and
  \<^verbatim>\<open>Math.floor\<close>, which is exact, is applied to the rounded quotient.  Overflow and
  subnormal numbers do not occur for a quotient of a non-zero binary64 integer
  by 100 and are not modelled.
\<close>

definition STEPS_PER_POWER_LEVEL :: int where
  "STEPS_PER_POWER_LEVEL = 100"

definition MAX_SAFE_INTEGER :: int where
  "MAX_SAFE_INTEGER = 2 ^ 53 - 1"

text \<open>The number of binary digits of a positive integer.\<close>

function bits :: "int \<Rightarrow> nat" where
  "bits m = (if m \<le> 0 then 0 else Suc (bits (m div 2)))"
  by pat_completeness auto
termination
  by (relation "measure nat") auto

text \<open>
  An integer is held by a binary64 number when it has at most 53 significant
  binary digits.
\<close>

definition is_double :: "int \<Rightarrow> bool" where
  "is_double n = (let k = bits \<bar>n\<bar> in k \<le> 53 \<or> 2 ^ (k - 53) dvd n)"

text \<open>
  The integer nearest to \<open>a / b\<close> for \<open>0 < b\<close>, the even one of two that are
  equally near.
\<close>

definition roundTiesToEven :: "int \<Rightarrow> int \<Rightarrow> int" where
  "roundTiesToEven a b =
     (let q = a div b; r = a mod b in
      if 2 * r < b then q else if b < 2 * r then q + 1 else if even q then q else q + 1)"

text \<open>
  The binary exponent of \<open>n / d\<close> for \<open>0 < n\<close> and \<open>0 < d\<close>: the integer \<open>e\<close> with
  \<open>2 ^ e \<le> n / d < 2 ^ (e + 1)\<close>.
\<close>

definition exponent2 :: "int \<Rightarrow> int \<Rightarrow> int" where
  "exponent2 n d =
     (if d \<le> n then int (bits (n div d)) - 1 else - int (bits ((d - 1) div n)))"

text \<open>
  The binary64 quotient of two positive integers: the exact quotient, rounded to
  a multiple of \<open>2 ^ (e - 52)\<close>, where \<open>e\<close> is its exponent.  \<open>divide64\<close> is the quotient
  for a numerator of any sign.
\<close>

definition quotient64 :: "int \<Rightarrow> int \<Rightarrow> rat" where
  "quotient64 n d =
     (let e = exponent2 n d in
      if e \<le> 52
      then of_int (roundTiesToEven (n * 2 ^ nat (52 - e)) d) / of_int (2 ^ nat (52 - e))
      else of_int (roundTiesToEven n (d * 2 ^ nat (e - 52)) * 2 ^ nat (e - 52)))"

definition divide64 :: "int \<Rightarrow> int \<Rightarrow> rat" where
  "divide64 n d =
     (if n = 0 then 0 else if n < 0 then - quotient64 (- n) d else quotient64 n d)"

definition calculatePowerLevelFromSteps :: "int \<Rightarrow> int" where
  "calculatePowerLevelFromSteps steps = \<lfloor>divide64 steps STEPS_PER_POWER_LEVEL\<rfloor>"

section \<open>Exceptions as values\<close>

text \<open>
  A thrown value is either an \<^verbatim>\<open>Error\<close> object with its message or anything else.
  A computation that may throw returns \<open>exn + 'a\<close>; \<open>and_then\<close> is sequencing
  (\<^verbatim>\<open>await\<close> of a promise that may reject), \<open>try_catch\<close> is a
  \<^verbatim>\<open>try { ... } catch (e) { ... }\<close> block.
\<close>

datatype exn = Error string | NonError

definition and_then :: "exn + 'a \<Rightarrow> ('a \<Rightarrow> exn + 'b) \<Rightarrow> exn + 'b" where
  "and_then r k = (case r of Inl e \<Rightarrow> Inl e | Inr v \<Rightarrow> k v)"

definition try_catch :: "exn + 'a \<Rightarrow> (exn \<Rightarrow> exn + 'a) \<Rightarrow> exn + 'a" where
  "try_catch r h = (case r of Inl e \<Rightarrow> h e | Inr v \<Rightarrow> Inr v)"

section \<open>StorageService (services/storage.ts)\<close>

text \<open>
  AsyncStorage holds one JSON document under each of the two keys of
  \<^verbatim>\<open>STORAGE_KEYS\<close>.  A document is modelled by the object it parses to, a finite map
  from entity id to number (\<^verbatim>\<open>JSON.parse\<close> after \<^verbatim>\<open>JSON.stringify\<close> returns such
  an object unchanged); \<open>None\<close> is an item that was never written, for which
  \<^verbatim>\<open>getItem\<close> resolves to \<^verbatim>\<open>null\<close>.  Whether one call of the storage rejects is
  decided by the platform: every operation takes that decision as an argument,
  \<open>None\<close> for a call that succeeds and \<open>Some e\<close> for one that rejects with \<open>e\<close>.
\<close>

type_synonym PokemonValueMap = "int \<rightharpoonup> int"

record storage =
  POWER_LEVELS :: "PokemonValueMap option"
  STEP_PROGRESS :: "PokemonValueMap option"

definition getItem :: "exn option \<Rightarrow> 'a option \<Rightarrow> exn + 'a option" where
  "getItem fault item = (case fault of Some e \<Rightarrow> Inl e | None \<Rightarrow> Inr item)"

definition setItem :: "exn option \<Rightarrow> 'a \<Rightarrow> exn + 'a" where
  "setItem fault written = (case fault of Some e \<Rightarrow> Inl e | None \<Rightarrow> Inr written)"

text \<open>\<^verbatim>\<open>data ? JSON.parse(data) : {}\<close>\<close>

definition parse_or_empty :: "PokemonValueMap option \<Rightarrow> PokemonValueMap" where
  "parse_or_empty data = (case data of Some m \<Rightarrow> m | None \<Rightarrow> Map.empty)"

text \<open>\<^verbatim>\<open>m[pokemonId] || 0\<close>: a missing property and a stored zero both give 0.\<close>

definition or_zero :: "int option \<Rightarrow> int" where
  "or_zero v = (case v of None \<Rightarrow> 0 | Some n \<Rightarrow> (if n = 0 then 0 else n))"

definition getPowerLevels :: "exn option \<Rightarrow> storage \<Rightarrow> exn + PokemonValueMap" where
  "getPowerLevels rd st =
     try_catch
       (and_then (getItem rd (POWER_LEVELS st)) (\<lambda>data. Inr (parse_or_empty data)))
       (\<lambda>error. Inr Map.empty)"

definition savePowerLevel ::
  "exn option \<Rightarrow> exn option \<Rightarrow> int \<Rightarrow> int \<Rightarrow> storage \<Rightarrow> exn + storage" where
  "savePowerLevel rd wr pokemonId powerLevel st =
     try_catch
       (and_then (getPowerLevels rd st) (\<lambda>powerLevels.
          and_then (setItem wr (st\<lparr>POWER_LEVELS := Some (powerLevels(pokemonId \<mapsto> powerLevel))\<rparr>))
            Inr))
       (\<lambda>error. Inr st)"

definition getPowerLevel :: "exn option \<Rightarrow> int \<Rightarrow> storage \<Rightarrow> exn + int" where
  "getPowerLevel rd pokemonId st =
     and_then (getPowerLevels rd st) (\<lambda>powerLevels. Inr (or_zero (powerLevels pokemonId)))"

definition getStepProgressMap :: "exn option \<Rightarrow> storage \<Rightarrow> exn + PokemonValueMap" where
  "getStepProgressMap rd st =
     try_catch
       (and_then (getItem rd (STEP_PROGRESS st)) (\<lambda>data. Inr (parse_or_empty data)))
       (\<lambda>error. Inr Map.empty)"

definition getStepProgress :: "exn option \<Rightarrow> int \<Rightarrow> storage \<Rightarrow> exn + int" where
  "getStepProgress rd pokemonId st =
     and_then (getStepProgressMap rd st) (\<lambda>progress. Inr (or_zero (progress pokemonId)))"

definition saveStepProgress ::
  "exn option \<Rightarrow> exn option \<Rightarrow> int \<Rightarrow> int \<Rightarrow> storage \<Rightarrow> exn + storage" where
  "saveStepProgress rd wr pokemonId steps st =
     try_catch
       (and_then (getStepProgressMap rd st) (\<lambda>progress.
          and_then
            (setItem wr (st\<lparr>STEP_PROGRESS :=
               Some (if steps \<le> 0 then progress(pokemonId := None)
                     else progress(pokemonId \<mapsto> steps))\<rparr>))
            Inr))
       (\<lambda>error. Inr st)"

definition removeItem :: "exn option \<Rightarrow> exn + unit" where
  "removeItem fault = (case fault of Some e \<Rightarrow> Inl e | None \<Rightarrow> Inr ())"

text \<open>
  \<^verbatim>\<open>clearAll\<close> removes the two items one after the other inside one \<^verbatim>\<open>try\<close>: when
  the second removal rejects, the first item is already gone.
\<close>

definition clearAll :: "exn option \<Rightarrow> exn option \<Rightarrow> storage \<Rightarrow> exn + storage" where
  "clearAll rmPower rmSteps st =
     (case removeItem rmPower of
        Inl error \<Rightarrow> Inr st
      | Inr u \<Rightarrow>
          (case removeItem rmSteps of
             Inl error \<Rightarrow> Inr (st\<lparr>POWER_LEVELS := None\<rparr>)
           | Inr u' \<Rightarrow> Inr (st\<lparr>POWER_LEVELS := None, STEP_PROGRESS := None\<rparr>)))"

text \<open>
  The calls that write to the storage, each with the outcomes of the storage
  operations it makes, and the store after a sequence of such calls.  A call that
  threw would leave the store as it is; none does.
\<close>

datatype storage_call =
    SavePowerLevel "exn option" "exn option" int int
  | SaveStepProgress "exn option" "exn option" int int
  | ClearAll "exn option" "exn option"

fun call_result :: "storage_call \<Rightarrow> storage \<Rightarrow> exn + storage" where
  "call_result (SavePowerLevel rd wr pokemonId powerLevel) st =
     savePowerLevel rd wr pokemonId powerLevel st"
| "call_result (SaveStepProgress rd wr pokemonId steps) st =
     saveStepProgress rd wr pokemonId steps st"
| "call_result (ClearAll rmPower rmSteps) st = clearAll rmPower rmSteps st"

definition perform :: "storage_call \<Rightarrow> storage \<Rightarrow> storage" where
  "perform c st = (case call_result c st of Inr st' \<Rightarrow> st' | Inl e \<Rightarrow> st)"

primrec perform_all :: "storage_call list \<Rightarrow> storage \<Rightarrow> storage" where
  "perform_all [] st = st"
| "perform_all (c # cs) st = perform_all cs (perform c st)"

definition empty_store :: storage where
  "empty_store = \<lparr> POWER_LEVELS = None, STEP_PROGRESS = None \<rparr>"

text \<open>
  What a later, successful read of a namespace finds under an entity's key: the
  explicit entry, if there is one.
\<close>

definition power_entry :: "storage \<Rightarrow> int \<Rightarrow> int option" where
  "power_entry st pokemonId = parse_or_empty (POWER_LEVELS st) pokemonId"

definition step_entry :: "storage \<Rightarrow> int \<Rightarrow> int option" where
  "step_entry st pokemonId = parse_or_empty (STEP_PROGRESS st) pokemonId"

section \<open>useStepTracking (hooks/useStepTracking.ts)\<close>

subsection \<open>State of one hook instance\<close>

text \<open>
  The record holds the React state and the refs of the hook, under the names of
  the source, and next to them what the hook has created outside itself: the
  live \<^verbatim>\<open>watchStepCount\<close> subscriptions and \<^verbatim>\<open>setInterval\<close> timers (by handle),
  the calls of \<^verbatim>\<open>startTracking\<close> that are suspended at
  \<^verbatim>\<open>await Pedometer.isAvailableAsync()\<close> and those suspended at
  \<^verbatim>\<open>await requestPermission()\<close> (oldest first), and the number of interval callbacks
  suspended at \<^verbatim>\<open>await Pedometer.getStepCountAsync\<close>.  A date is a number of time
  units.

  The callbacks of the hook read \<^verbatim>\<open>hasPermission\<close> and \<^verbatim>\<open>error\<close> through their
  closures, which hold the state of the render that created the callback.  A call
  is taken to be made with the callbacks of the latest render, so that its closure
  holds the state at the time of the call; a suspended call keeps these values
  while the state changes.
\<close>

record closure =
  closureHasPermission :: bool
  closureError :: "string option"

record session =
  rawSteps :: int
  isAvailable :: bool
  isTracking :: bool
  error :: "string option"
  hasPermission :: bool
  canAskAgain :: bool
  startDateRef :: "nat option"
  subscriptionRef :: "nat option"
  isInitializedRef :: bool
  availabilityCheckedRef :: bool
  pollIntervalRef :: "nat option"
  baselineRef :: int
  watchers :: "nat list"
  intervals :: "nat list"
  nextHandle :: nat
  awaitAvailable :: "closure list"
  awaitPermission :: "closure list"
  polling :: nat

definition initial :: session where
  "initial = \<lparr> rawSteps = 0, isAvailable = False, isTracking = False, error = None,
       hasPermission = False, canAskAgain = True, startDateRef = None,
       subscriptionRef = None, isInitializedRef = False, availabilityCheckedRef = False,
       pollIntervalRef = None, baselineRef = 0, watchers = [], intervals = [],
       nextHandle = 0, awaitAvailable = [], awaitPermission = [], polling = 0 \<rparr>"

text \<open>\<^verbatim>\<open>const calculatedSteps = Math.max(rawSteps - baselineRef.current, 0)\<close>\<close>

definition calculatedSteps :: "session \<Rightarrow> int" where
  "calculatedSteps s = max (rawSteps s - baselineRef s) 0"

subsection \<open>Permission\<close>

text \<open>
  A \<^verbatim>\<open>PermissionResponse\<close> with the three properties the hook reads; \<open>None\<close> is a
  property that is missing or not of the type the hook tests for.
\<close>

record PermissionResponse =
  granted :: "bool option"
  status :: "string option"
  canAskAgainR :: "bool option"

definition parsePermission :: "PermissionResponse option \<Rightarrow> bool" where
  "parsePermission response =
     (case response of
        None \<Rightarrow> True
      | Some r \<Rightarrow>
          (case granted r of
             Some g \<Rightarrow> g
           | None \<Rightarrow> (case status r of Some t \<Rightarrow> t = ''granted'' | None \<Rightarrow> True)))"

definition toLowerCase :: "string \<Rightarrow> string" where
  "toLowerCase t =
     map (\<lambda>c. let n = (of_char c :: nat) in
               if 65 \<le> n \<and> n \<le> 90 then char_of (n + 32) else c) t"

fun startsWith :: "string \<Rightarrow> string \<Rightarrow> bool" where
  "startsWith t [] = True"
| "startsWith [] (c # cs) = False"
| "startsWith (d # ds) (c # cs) = (d = c \<and> startsWith ds cs)"

fun includesStr :: "string \<Rightarrow> string \<Rightarrow> bool" where
  "includesStr [] sub = startsWith [] sub"
| "includesStr (d # ds) sub = (startsWith (d # ds) sub \<or> includesStr ds sub)"

definition updatePermissionState ::
  "string option \<Rightarrow> PermissionResponse option \<Rightarrow> session \<Rightarrow> bool \<times> session" where
  "updatePermissionState error_in_closure response s =
     (let isGranted = parsePermission response;
          s1 = s\<lparr>hasPermission := isGranted\<rparr>;
          s2 = (case response of
                  Some r \<Rightarrow> (case canAskAgainR r of
                               Some c \<Rightarrow> s1\<lparr>canAskAgain := c\<rparr>
                             | None \<Rightarrow> s1)
                | None \<Rightarrow> s1);
          s3 = (if \<not> isGranted then
                  (if (case response of Some r \<Rightarrow> canAskAgainR r = Some False | None \<Rightarrow> False)
                   then s2\<lparr>error := Some ''Permission denied. Please enable Motion & Fitness in Settings.''\<rparr>
                   else s2\<lparr>error := Some ''Pedometer permission not granted''\<rparr>)
                else
                  (case error_in_closure of
                     Some e \<Rightarrow> (if includesStr (toLowerCase e) ''permission''
                                then s2\<lparr>error := None\<rparr> else s2)
                   | None \<Rightarrow> s2))
      in (isGranted, s3))"

text \<open>
  \<^verbatim>\<open>requestPermission\<close> and \<^verbatim>\<open>checkPermissionStatus\<close>.  The first argument is the
  \<^verbatim>\<open>error\<close> that the closure of \<^verbatim>\<open>updatePermissionState\<close> holds, the next is the
  permission function of \<^verbatim>\<open>Pedometer\<close>: \<open>None\<close> when the platform has none
  (\<^verbatim>\<open>typeof ... === 'function'\<close> fails), otherwise how the promise it returns
  settles, \<open>Inl e\<close> for a rejection with \<open>e\<close>.  The alert that \<^verbatim>\<open>requestPermission\<close>
  shows on a permanent denial changes no state of the hook and is left out.
\<close>

definition requestPermission ::
  "string option \<Rightarrow> (exn + PermissionResponse option) option \<Rightarrow> session
     \<Rightarrow> exn + bool \<times> session" where
  "requestPermission error_in_closure requestPermissionsAsync s =
     try_catch
       (case requestPermissionsAsync of
          Some settled \<Rightarrow>
            and_then settled (\<lambda>response.
              Inr (updatePermissionState error_in_closure response s))
        | None \<Rightarrow> Inr (True, s\<lparr>hasPermission := True\<rparr>))
       (\<lambda>err. Inr (False, s\<lparr>error := Some ''Unable to request pedometer permission'',
                               hasPermission := False\<rparr>))"

definition checkPermissionStatus ::
  "string option \<Rightarrow> (exn + PermissionResponse option) option
     \<Rightarrow> (exn + PermissionResponse option) option \<Rightarrow> session \<Rightarrow> exn + bool \<times> session" where
  "checkPermissionStatus error_in_closure getPermissionsAsync requestPermissionsAsync s =
     try_catch
       (case getPermissionsAsync of
          Some settled \<Rightarrow>
            and_then settled (\<lambda>response.
              (case updatePermissionState error_in_closure response s of
                 (isGranted, s') \<Rightarrow>
                   if \<not> isGranted \<and>
                      (case response of Some r \<Rightarrow> canAskAgainR r = Some True | None \<Rightarrow> False)
                   then requestPermission error_in_closure requestPermissionsAsync s'
                   else Inr (isGranted, s')))
        | None \<Rightarrow> Inr (True, s\<lparr>hasPermission := True, canAskAgain := True\<rparr>))
       (\<lambda>err. Inr (True, s\<lparr>hasPermission := True, canAskAgain := True\<rparr>))"

subsection \<open>startTracking, stopTracking, resetSteps\<close>

text \<open>
  \<^verbatim>\<open>startTracking\<close> is an \<^verbatim>\<open>async\<close> function: it runs up to its first \<^verbatim>\<open>await\<close>, and
  the rest runs when the awaited promise settles, after whatever else the event
  queue delivered in between.  Each definition below is one such stretch of the
  body: from the call to \<^verbatim>\<open>await Pedometer.isAvailableAsync()\<close>
  (\<open>startTracking_enter\<close>), from there to \<^verbatim>\<open>await requestPermission()\<close> or, when
  the permission is held, to the end (\<open>startTracking_available\<close>), and from the
  permission request to the end (\<open>startTracking_requested\<close>).
  \<^verbatim>\<open>Pedometer.watchStepCount\<close> and \<^verbatim>\<open>setInterval\<close> are taken to return normally, so
  the \<^verbatim>\<open>catch\<close> of \<^verbatim>\<open>startTracking\<close> is entered only when \<^verbatim>\<open>isAvailableAsync\<close>
  rejects.
\<close>

definition startTracking_catch :: "exn \<Rightarrow> session \<Rightarrow> session" where
  "startTracking_catch err s =
     s\<lparr>error := Some (case err of Error message \<Rightarrow> message | NonError \<Rightarrow> ''Unknown error''),
       isAvailable := False, isTracking := False\<rparr>"

definition startTracking_enter :: "session \<Rightarrow> session" where
  "startTracking_enter s =
     (if isInitializedRef s then s
      else s\<lparr>awaitAvailable := awaitAvailable s @
             [\<lparr>closureHasPermission = hasPermission s, closureError = error s\<rparr>]\<rparr>)"

definition startTracking_subscribe :: "nat \<Rightarrow> session \<Rightarrow> session" where
  "startTracking_subscribe startDate s =
     (let subscription = nextHandle s; timer = nextHandle s + 1 in
      s\<lparr>startDateRef := Some startDate,
        watchers := watchers s @ [subscription],
        subscriptionRef := Some subscription,
        intervals := intervals s @ [timer],
        pollIntervalRef := Some timer,
        nextHandle := nextHandle s + 2,
        isInitializedRef := True,
        baselineRef := 0,
        rawSteps := 0,
        isTracking := True,
        error := None\<rparr>)"

definition startTracking_permitted :: "bool \<Rightarrow> nat \<Rightarrow> session \<Rightarrow> session" where
  "startTracking_permitted permissionGranted now s =
     (if \<not> permissionGranted then s\<lparr>error := Some ''Pedometer permission not granted''\<rparr>
      else startTracking_subscribe now s)"

definition startTracking_requested ::
  "closure \<Rightarrow> (exn + PermissionResponse option) option \<Rightarrow> nat \<Rightarrow> session \<Rightarrow> session" where
  "startTracking_requested cl requestPermissionsAsync now s =
     (case requestPermission (closureError cl) requestPermissionsAsync s of
        Inr (permissionGranted, s') \<Rightarrow> startTracking_permitted permissionGranted now s'
      | Inl err \<Rightarrow> startTracking_catch err s)"

definition startTracking_available ::
  "bool \<Rightarrow> closure \<Rightarrow> exn + bool \<Rightarrow> nat \<Rightarrow> session \<Rightarrow> session" where
  "startTracking_available hasRequestApi cl settled now s =
     (case settled of
        Inl err \<Rightarrow> startTracking_catch err s
      | Inr available \<Rightarrow>
          (let s1 = s\<lparr>isAvailable := available\<rparr> in
           if \<not> available then s1\<lparr>error := Some ''Pedometer is not available on this device''\<rparr>
           else if closureHasPermission cl then startTracking_permitted True now s1
           else if hasRequestApi then s1\<lparr>awaitPermission := awaitPermission s1 @ [cl]\<rparr>
           else startTracking_requested cl None now s1))"

text \<open>
  \<^verbatim>\<open>stopTracking\<close>.  The first argument says whether \<^verbatim>\<open>subscriptionRef.current.remove()\<close>
  throws, and what; a \<^verbatim>\<open>remove\<close> that throws is taken to leave the subscription
  live.  The exception leaves the \<^verbatim>\<open>try\<close> block before anything else is done, and
  the \<^verbatim>\<open>catch\<close> only logs.  \<^verbatim>\<open>clearInterval\<close> never throws.
\<close>

definition remove_subscription :: "exn option \<Rightarrow> session \<Rightarrow> exn + session" where
  "remove_subscription removeThrows s =
     (case subscriptionRef s of
        Some subscription \<Rightarrow>
          (case removeThrows of
             Some err \<Rightarrow> Inl err
           | None \<Rightarrow> Inr (s\<lparr>watchers := remove1 subscription (watchers s),
                              subscriptionRef := None\<rparr>))
      | None \<Rightarrow> Inr s)"

definition clear_interval :: "session \<Rightarrow> session" where
  "clear_interval s =
     (case pollIntervalRef s of
        Some timer \<Rightarrow> s\<lparr>intervals := remove1 timer (intervals s), pollIntervalRef := None\<rparr>
      | None \<Rightarrow> s)"

definition stopTracking :: "exn option \<Rightarrow> session \<Rightarrow> session" where
  "stopTracking removeThrows s =
     (if \<not> isInitializedRef s then s
      else
        (case remove_subscription removeThrows s of
           Inr s1 \<Rightarrow> (clear_interval s1)\<lparr>isInitializedRef := False, isTracking := False\<rparr>
         | Inl err \<Rightarrow> s))"

text \<open>\<^verbatim>\<open>resetSteps\<close> stores the \<^verbatim>\<open>rawSteps\<close> of its closure, the current one.\<close>

definition resetSteps :: "session \<Rightarrow> session" where
  "resetSteps s = s\<lparr>baselineRef := rawSteps s\<rparr>"

subsection \<open>The two update channels\<close>

text \<open>
  The callback given to \<^verbatim>\<open>watchStepCount\<close> runs once for each live subscription and
  stores \<^verbatim>\<open>result.steps\<close>.  The callback given to \<^verbatim>\<open>setInterval\<close> is \<^verbatim>\<open>async\<close>: when a
  live timer fires it tests \<^verbatim>\<open>startDateRef.current\<close> and calls
  \<^verbatim>\<open>getStepCountAsync\<close> (\<open>poll_fires\<close>); when that promise settles it stores a
  result that is strictly positive, and logs a rejection (\<open>poll_settled\<close>).
\<close>

definition watch_callback :: "int \<Rightarrow> session \<Rightarrow> session" where
  "watch_callback steps s = (if watchers s = [] then s else s\<lparr>rawSteps := steps\<rparr>)"

definition poll_fires :: "session \<Rightarrow> session" where
  "poll_fires s =
     (if intervals s = [] then s
      else (case startDateRef s of
              Some startDate \<Rightarrow> s\<lparr>polling := polling s + 1\<rparr>
            | None \<Rightarrow> s))"

definition poll_settled :: "exn + int \<Rightarrow> session \<Rightarrow> session" where
  "poll_settled settled s =
     (if polling s = 0 then s
      else (let s1 = s\<lparr>polling := polling s - 1\<rparr> in
            case settled of
              Inr steps \<Rightarrow> (if steps > 0 then s1\<lparr>rawSteps := steps\<rparr> else s1)
            | Inl err \<Rightarrow> s1))"

subsection \<open>The event queue\<close>

text \<open>
  One event is one uninterrupted stretch of JavaScript on the single event queue:
  a call of one of the hook's commands (a call of \<^verbatim>\<open>stopTracking\<close> with what its
  \<^verbatim>\<open>remove\<close> does), the settling of a promise that a suspended call awaits (the
  oldest suspended call resumes), or a callback of one of the two channels.  \<open>hasRequestApi\<close> says whether \<^verbatim>\<open>Pedometer.requestPermissionsAsync\<close> is a
  function on this platform.
\<close>

datatype event =
    Call_startTracking
  | Settle_isAvailable "exn + bool" nat
  | Settle_requestPermission "exn + PermissionResponse option" nat
  | Call_stopTracking "exn option"
  | Call_resetSteps
  | Watch_callback int
  | Interval_fires
  | Settle_getStepCount "exn + int"

fun step :: "bool \<Rightarrow> event \<Rightarrow> session \<Rightarrow> session" where
  "step api Call_startTracking s = startTracking_enter s"
| "step api (Settle_isAvailable settled now) s =
     (case awaitAvailable s of
        [] \<Rightarrow> s
      | cl # rest \<Rightarrow>
          startTracking_available api cl settled now (s\<lparr>awaitAvailable := rest\<rparr>))"
| "step api (Settle_requestPermission settled now) s =
     (case awaitPermission s of
        [] \<Rightarrow> s
      | cl # rest \<Rightarrow>
          startTracking_requested cl (Some settled) now (s\<lparr>awaitPermission := rest\<rparr>))"
| "step api (Call_stopTracking removeThrows) s = stopTracking removeThrows s"
| "step api Call_resetSteps s = resetSteps s"
| "step api (Watch_callback steps) s = watch_callback steps s"
| "step api Interval_fires s = poll_fires s"
| "step api (Settle_getStepCount settled) s = poll_settled settled s"

primrec run :: "bool \<Rightarrow> event list \<Rightarrow> session \<Rightarrow> session" where
  "run api [] s = s"
| "run api (ev # evs) s = run api evs (step api ev s)"

text \<open>The states a run passes through, the first one included.\<close>

primrec states :: "bool \<Rightarrow> event list \<Rightarrow> session \<Rightarrow> session list" where
  "states api [] s = [s]"
| "states api (ev # evs) s = s # states api evs (step api ev s)"

text \<open>
  The events of the two channels, the number that such an event hands to
  \<^verbatim>\<open>setRawSteps\<close> (none for a timer that fires, a rejected poll, or a poll result
  that is not strictly positive), and the runs in which these numbers never go
  down, starting from a given one.
\<close>

fun channel_event :: "event \<Rightarrow> bool" where
  "channel_event (Watch_callback steps) = True"
| "channel_event Interval_fires = True"
| "channel_event (Settle_getStepCount settled) = True"
| "channel_event ev = False"

fun delivered :: "event \<Rightarrow> int option" where
  "delivered (Watch_callback steps) = Some steps"
| "delivered (Settle_getStepCount (Inr steps)) = (if steps > 0 then Some steps else None)"
| "delivered ev = None"

fun ascending :: "int \<Rightarrow> event list \<Rightarrow> bool" where
  "ascending r [] = True"
| "ascending r (ev # evs) =
     (case delivered ev of
        None \<Rightarrow> ascending r evs
      | Some steps \<Rightarrow> r \<le> steps \<and> ascending steps evs)"

text \<open>The events that are not a call of \<^verbatim>\<open>startTracking\<close>.\<close>

fun not_start :: "event \<Rightarrow> bool" where
  "not_start Call_startTracking = False"
| "not_start ev = True"

text \<open>
  The session is starting while a call of \<^verbatim>\<open>startTracking\<close> is suspended, and owns
  its channels when the only live subscription and the only live timer are the
  ones its refs hold.
\<close>

definition is_starting :: "session \<Rightarrow> bool" where
  "is_starting s = (0 < length (awaitAvailable s) + length (awaitPermission s))"

definition owns_channels :: "session \<Rightarrow> bool" where
  "owns_channels s =
     (watchers s = (case subscriptionRef s of Some subscription \<Rightarrow> [subscription] | None \<Rightarrow> []) \<and>
      intervals s = (case pollIntervalRef s of Some timer \<Rightarrow> [timer] | None \<Rightarrow> []))"

section \<open>usePokemonPower (hooks/usePokemonPower.ts)\<close>

record Pokemon =
  pokemon_id :: int
  pokemon_name :: string

record power_hook =
  basePowerLevel :: int
  isLoading :: bool
  storedSteps :: int

definition power_initial :: power_hook where
  "power_initial = \<lparr> basePowerLevel = 0, isLoading = True, storedSteps = 0 \<rparr>"

definition loadPowerLevel ::
  "exn option \<Rightarrow> exn option \<Rightarrow> Pokemon option \<Rightarrow> storage \<Rightarrow> power_hook \<Rightarrow> exn + power_hook" where
  "loadPowerLevel rdPower rdSteps pokemon st h =
     (case pokemon of
        None \<Rightarrow> Inr (h\<lparr>isLoading := False\<rparr>)
      | Some p \<Rightarrow>
          and_then
            (try_catch
               (and_then (getPowerLevel rdPower (pokemon_id p) st) (\<lambda>storedPower.
                and_then (getStepProgress rdSteps (pokemon_id p) st) (\<lambda>storedStepProgress.
                  Inr (h\<lparr>basePowerLevel := storedPower, storedSteps := storedStepProgress\<rparr>))))
               (\<lambda>error. Inr (h\<lparr>basePowerLevel := 0, storedSteps := 0\<rparr>)))
            (\<lambda>h'. Inr (h'\<lparr>isLoading := False\<rparr>)))"

text \<open>The values derived at every render; \<open>tr\<close> is the step-tracking hook.\<close>

definition totalSteps :: "power_hook \<Rightarrow> session \<Rightarrow> int" where
  "totalSteps h tr = storedSteps h + calculatedSteps tr"

definition stepsFromPower :: "power_hook \<Rightarrow> session \<Rightarrow> int" where
  "stepsFromPower h tr = calculatePowerLevelFromSteps (totalSteps h tr)"

definition totalPowerLevel :: "power_hook \<Rightarrow> session \<Rightarrow> int" where
  "totalPowerLevel h tr = basePowerLevel h + stepsFromPower h tr"

text \<open>The effect that runs whenever \<^verbatim>\<open>totalSteps\<close> changes (write-through).\<close>

definition persist_effect ::
  "exn option \<Rightarrow> exn option \<Rightarrow> Pokemon option \<Rightarrow> power_hook \<Rightarrow> session \<Rightarrow> storage
     \<Rightarrow> exn + storage" where
  "persist_effect rd wr pokemon h tr st =
     (case pokemon of
        None \<Rightarrow> Inr st
      | Some p \<Rightarrow> saveStepProgress rd wr (pokemon_id p) (totalSteps h tr) st)"

definition refreshPower ::
  "exn option \<Rightarrow> exn option \<Rightarrow> exn option \<Rightarrow> exn option \<Rightarrow> Pokemon option \<Rightarrow> power_hook
     \<Rightarrow> session \<Rightarrow> storage \<Rightarrow> exn + storage" where
  "refreshPower rdPower wrPower rdSteps wrSteps pokemon h tr st =
     (case pokemon of
        None \<Rightarrow> Inr st
      | Some p \<Rightarrow>
          and_then (savePowerLevel rdPower wrPower (pokemon_id p) (totalPowerLevel h tr) st)
            (\<lambda>st1. saveStepProgress rdSteps wrSteps (pokemon_id p) (totalSteps h tr) st1))"

section \<open>Predicates and example data for the statements\<close>

text \<open>
  The step-progress namespace is sparse when every explicit entry is strictly
  positive.
\<close>

definition sparse :: "storage \<Rightarrow> bool" where
  "sparse st = (\<forall>pokemonId steps. step_entry st pokemonId = Some steps \<longrightarrow> 0 < steps)"

text \<open>
  One entity with banked power level 2 and 50 stored steps, the response of a
  platform that grants the permission, and the events of one undisturbed
  \<^verbatim>\<open>startTracking\<close> of a hook without permission.
\<close>

definition example_store :: storage where
  "example_store = \<lparr> POWER_LEVELS = Some [25 \<mapsto> 2], STEP_PROGRESS = Some [25 \<mapsto> 50] \<rparr>"

definition pikachu :: Pokemon where
  "pikachu = \<lparr> pokemon_id = 25, pokemon_name = ''pikachu'' \<rparr>"

definition granted_response :: PermissionResponse where
  "granted_response = \<lparr> granted = Some True, status = Some ''granted'', canAskAgainR = Some True \<rparr>"

definition start_events :: "event list" where
  "start_events = [Call_startTracking, Settle_isAvailable (Inr True) 0,
                   Settle_requestPermission (Inr (Some granted_response)) 0]"

text \<open>
  Two calls of \<^verbatim>\<open>startTracking\<close> of which the second is made while the first is
  suspended, a walk of eight steps as the two channels report it, and events that
  follow a stop, none of them a call of \<^verbatim>\<open>startTracking\<close>.
\<close>

definition double_start :: "event list" where
  "double_start = [Call_startTracking, Call_startTracking,
     Settle_isAvailable (Inr True) 0, Settle_isAvailable (Inr True) 0,
     Settle_requestPermission (Inr (Some granted_response)) 0,
     Settle_requestPermission (Inr (Some granted_response)) 0]"

definition walk :: "event list" where
  "walk = [Watch_callback 3, Interval_fires, Settle_getStepCount (Inr 0),
           Interval_fires, Settle_getStepCount (Inr 8), Watch_callback 8]"

definition after_stop :: "event list" where
  "after_stop = [Watch_callback 9, Interval_fires, Settle_getStepCount (Inr 9),
     Settle_isAvailable (Inr True) 1, Call_resetSteps,
     Call_stopTracking (Some (Error ''removed twice''))]"

text \<open>
  A stop that is called while a second call of \<^verbatim>\<open>startTracking\<close> is suspended, and
  what the event queue delivers after it.
\<close>

definition stop_while_starting :: "event list" where
  "stop_while_starting = [Call_startTracking, Call_startTracking,
     Settle_isAvailable (Inr True) 0,
     Settle_requestPermission (Inr (Some granted_response)) 0,
     Call_stopTracking None]"

definition resume_after_stop :: "event list" where
  "resume_after_stop = [Settle_isAvailable (Inr True) 0,
     Settle_requestPermission (Inr (Some granted_response)) 0,
     Watch_callback 9]"

text \<open>A store with the power levels of two entities.\<close>

definition two_entities :: storage where
  "two_entities = \<lparr> POWER_LEVELS = Some [25 \<mapsto> 2, 1 \<mapsto> 5], STEP_PROGRESS = None \<rparr>"

section \<open>Properties of the power formula\<close>

lemma roundTiesToEven_bounds:
  assumes "0 < b"
  shows "a div b \<le> roundTiesToEven a b" and "2 * (b * roundTiesToEven a b) \<le> 2 * a + b"
proof -
  have eq: "a = b * (a div b) + a mod b"
    by simp
  have r: "0 \<le> a mod b" "a mod b < b"
    using assms by simp_all
  show "a div b \<le> roundTiesToEven a b"
    by (simp add: roundTiesToEven_def Let_def)
  have "2 * (b * (a div b + 1)) \<le> 2 * a + b" if "b \<le> 2 * (a mod b)"
  proof -
    have "2 * (b * (a div b + 1)) = 2 * (b * (a div b)) + 2 * b"
      by (simp add: algebra_simps)
    also have "\<dots> \<le> 2 * (b * (a div b)) + 2 * (a mod b) + b"
      using that by simp
    also have "\<dots> = 2 * a + b"
      using eq by (metis distrib_left)
    finally show ?thesis .
  qed
  moreover have "2 * (b * (a div b)) \<le> 2 * a + b"
  proof -
    have "2 * (b * (a div b)) \<le> 2 * (b * (a div b)) + 2 * (a mod b) + b"
      using r assms by simp
    also have "\<dots> = 2 * a + b"
      using eq by (metis distrib_left)
    finally show ?thesis .
  qed
  ultimately show "2 * (b * roundTiesToEven a b) \<le> 2 * a + b"
    by (auto simp: roundTiesToEven_def Let_def)
qed


lemma bits_le: "m < 2 ^ k \<Longrightarrow> bits m \<le> k"
proof (induction m arbitrary: k rule: bits.induct)
  case (1 m)
  show ?case
  proof (cases "m \<le> 0")
    case True
    then show ?thesis by simp
  next
    case False
    with "1.prems" obtain j where k: "k = Suc j"
      by (cases k) auto
    with "1.prems" have "m div 2 < 2 ^ j"
      by simp
    with False "1.IH" have "bits (m div 2) \<le> j"
      by simp
    with False k show ?thesis
      by (subst bits.simps) simp
  qed
qed

lemma bits_bounds: "0 < m \<Longrightarrow> 2 ^ (bits m - 1) \<le> m \<and> m < 2 ^ bits m"
proof (induction m rule: bits.induct)
  case (1 m)
  show ?case
  proof (cases "m = 1")
    case True
    have "bits 1 = Suc 0"
      by (subst bits.simps, subst bits.simps) simp
    with True show ?thesis by simp
  next
    case False
    with "1.prems" have h: "0 < m div 2" by simp
    with "1.IH" "1.prems" have ih: "2 ^ (bits (m div 2) - 1) \<le> m div 2" "m div 2 < 2 ^ bits (m div 2)"
      by simp_all
    have b: "bits m = Suc (bits (m div 2))"
      using "1.prems" by (subst bits.simps) simp
    from h have pos: "0 < bits (m div 2)"
      by (subst bits.simps) simp
    then obtain j where j: "bits (m div 2) = Suc j"
      by (cases "bits (m div 2)") auto
    from ih j have "2 * 2 ^ j \<le> m" "m < 2 * 2 ^ Suc j"
      by simp_all
    with b j show ?thesis by simp
  qed
qed

lemma exponent2_bounds:
  assumes "0 < n" "0 < d"
  shows "0 \<le> exponent2 n d \<Longrightarrow>
           d * 2 ^ nat (exponent2 n d) \<le> n \<and> n < d * 2 ^ nat (exponent2 n d + 1)"
    and "exponent2 n d < 0 \<Longrightarrow>
           d \<le> n * 2 ^ nat (- exponent2 n d) \<and> n * 2 ^ nat (- exponent2 n d - 1) < d"
proof -
  have ge: "d * 2 ^ nat (exponent2 n d) \<le> n \<and> n < d * 2 ^ nat (exponent2 n d + 1)"
    and nonneg: "0 \<le> exponent2 n d" if "d \<le> n"
  proof -
    define m where "m = n div d"
    from that assms have m: "0 < m"
      by (simp add: m_def pos_imp_zdiv_pos_iff)
    from bits_bounds [OF m] have b: "2 ^ (bits m - 1) \<le> m" "m + 1 \<le> 2 ^ bits m"
      by simp_all
    from m have pos: "0 < bits m"
      by (subst bits.simps) simp
    with that have e: "exponent2 n d = int (bits m) - 1"
      by (simp add: exponent2_def m_def)
    with pos show "0 \<le> exponent2 n d" by simp
    from e pos have n1: "nat (exponent2 n d) = bits m - 1" "nat (exponent2 n d + 1) = bits m"
      by simp_all
    have "n = d * m + n mod d"
      unfolding m_def by simp
    moreover have "0 \<le> n mod d" "n mod d < d"
      using assms(2) by simp_all
    ultimately have dm: "d * m \<le> n" "n < d * (m + 1)"
      by (simp_all add: algebra_simps)
    from b(1) assms(2) have "d * 2 ^ (bits m - 1) \<le> d * m"
      by (simp add: mult_left_mono)
    moreover from b(2) assms(2) have "d * (m + 1) \<le> d * 2 ^ bits m"
      by (simp add: mult_left_mono)
    ultimately show "d * 2 ^ nat (exponent2 n d) \<le> n \<and> n < d * 2 ^ nat (exponent2 n d + 1)"
      using dm n1 by simp
  qed
  have lt: "d \<le> n * 2 ^ nat (- exponent2 n d) \<and> n * 2 ^ nat (- exponent2 n d - 1) < d"
    and neg: "exponent2 n d < 0" if "n < d"
  proof -
    define m where "m = (d - 1) div n"
    from that assms have m: "0 < m"
      by (simp add: m_def pos_imp_zdiv_pos_iff)
    from bits_bounds [OF m] have b: "2 ^ (bits m - 1) \<le> m" "m + 1 \<le> 2 ^ bits m"
      by simp_all
    from m have pos: "0 < bits m"
      by (subst bits.simps) simp
    with that have e: "exponent2 n d = - int (bits m)"
      by (simp add: exponent2_def m_def)
    with pos show "exponent2 n d < 0" by simp
    from e pos have n1: "nat (- exponent2 n d) = bits m" "nat (- exponent2 n d - 1) = bits m - 1"
      by simp_all
    have "d - 1 = n * m + (d - 1) mod n"
      unfolding m_def by simp
    moreover have "0 \<le> (d - 1) mod n" "(d - 1) mod n < n"
      using assms(1) by simp_all
    ultimately have dm: "n * m \<le> d - 1" "d - 1 < n * (m + 1)"
      by (simp_all add: algebra_simps)
    from b(1) assms(1) have "n * 2 ^ (bits m - 1) \<le> n * m"
      by (simp add: mult_left_mono)
    moreover from b(2) assms(1) have "n * (m + 1) \<le> n * 2 ^ bits m"
      by (simp add: mult_left_mono)
    ultimately show "d \<le> n * 2 ^ nat (- exponent2 n d) \<and> n * 2 ^ nat (- exponent2 n d - 1) < d"
      using dm n1 by simp
  qed
  show "0 \<le> exponent2 n d \<Longrightarrow>
           d * 2 ^ nat (exponent2 n d) \<le> n \<and> n < d * 2 ^ nat (exponent2 n d + 1)"
    using ge neg by (cases "d \<le> n") auto
  show "exponent2 n d < 0 \<Longrightarrow>
           d \<le> n * 2 ^ nat (- exponent2 n d) \<and> n * 2 ^ nat (- exponent2 n d - 1) < d"
    using lt nonneg by (cases "d \<le> n") auto
qed

lemma exponent2_small:
  assumes "0 < n" "n \<le> MAX_SAFE_INTEGER"
  shows "exponent2 n 100 \<le> 46"
proof (cases "100 \<le> n")
  case True
  from assms(2) have "n div 100 < 2 ^ 47"
    by (simp add: MAX_SAFE_INTEGER_def)
  then have "bits (n div 100) \<le> 47"
    by (rule bits_le)
  with True show ?thesis by (simp add: exponent2_def)
next
  case False
  then show ?thesis by (simp add: exponent2_def)
qed

lemma quotient64_floor:
  assumes "0 < n" "n \<le> MAX_SAFE_INTEGER"
  shows "\<lfloor>quotient64 n 100\<rfloor> = n div 100"
proof -
  define e where "e = exponent2 n 100"
  define k where "k = nat (52 - e)"
  define P :: int where "P = 2 ^ k"
  define m where "m = roundTiesToEven (n * P) 100"
  define q where "q = n div 100"
  from assms have e: "e \<le> 46"
    unfolding e_def by (rule exponent2_small)
  then have "6 \<le> k" by (simp add: k_def)
  then have "(2::int) ^ 6 \<le> 2 ^ k"
    by (rule power_increasing) simp
  then have P: "64 \<le> P" by (simp add: P_def)
  from e have "exponent2 n 100 \<le> 52"
    by (simp add: e_def)
  then have val: "quotient64 n 100 = of_int m / of_int P"
    unfolding quotient64_def Let_def m_def P_def k_def e_def by simp
  have fl: "\<lfloor>quotient64 n 100\<rfloor> = m div P"
    unfolding val by (rule floor_divide_of_int_eq)
  have "n = 100 * q + n mod 100"
    unfolding q_def by simp
  moreover have "0 \<le> n mod 100" "n mod 100 < 100"
    by simp_all
  ultimately have n: "100 * q \<le> n" "n \<le> 100 * q + 99"
    by linarith+
  have lower: "q * P \<le> m"
  proof -
    from n(1) P have "100 * (q * P) \<le> n * P"
      by (simp add: mult.assoc [symmetric] mult_right_mono)
    then have "(100 * (q * P)) div 100 \<le> (n * P) div 100"
      by (rule zdiv_mono1) simp
    then have "q * P \<le> (n * P) div 100"
      by simp
    also have "\<dots> \<le> m"
      unfolding m_def by (rule roundTiesToEven_bounds) simp
    finally show ?thesis .
  qed
  have upper: "m < (q + 1) * P"
  proof -
    have "2 * (100 * m) \<le> 2 * (n * P) + 100"
      unfolding m_def by (rule roundTiesToEven_bounds) simp
    moreover from n(2) P have "n * P \<le> (100 * q + 99) * P"
      by (simp add: mult_right_mono)
    ultimately have "100 * m \<le> 100 * (q * P) + 99 * P + 50"
      by (simp add: algebra_simps)
    with P have "100 * m < 100 * (q * P) + 100 * P"
      by simp
    then show ?thesis
      by (simp add: algebra_simps)
  qed
  have "m div P = q"
  proof (rule int_div_pos_eq [where r = "m - q * P"])
    show "m = P * q + (m - q * P)" by (simp add: algebra_simps)
    show "0 \<le> m - q * P" using lower by simp
    show "m - q * P < P" using upper by (simp add: algebra_simps)
  qed
  with fl show ?thesis by (simp add: q_def)
qed

lemma calculatePowerLevelFromSteps_div:
  assumes "0 \<le> steps" "steps \<le> MAX_SAFE_INTEGER"
  shows "calculatePowerLevelFromSteps steps = steps div 100"
proof (cases "steps = 0")
  case True
  then show ?thesis
    by (simp add: calculatePowerLevelFromSteps_def divide64_def)
next
  case False
  with assms have "0 < steps" by simp
  with assms(2) show ?thesis
    by (simp add: calculatePowerLevelFromSteps_def divide64_def STEPS_PER_POWER_LEVEL_def
        quotient64_floor)
qed

text \<open>
  Claim C2, as stated, fails above the safe integers: 56294995342131296 is held by
  a binary64 number, its quotient by 100 is rounded up to 562949953421313, and the
  integer division gives 562949953421312.
\<close>

theorem C2_powerFromSteps_counterexample:
  "is_double 56294995342131296 \<and>
   calculatePowerLevelFromSteps 56294995342131296 = 562949953421313 \<and>
   56294995342131296 div 100 = (562949953421312 :: int)"
  by code_simp

text \<open>
  Claim C2, amended.  For every integer number of steps from 0 to
  \<open>MAX_SAFE_INTEGER\<close>, which is \<open>2 ^ 53 - 1\<close>, the power gained from the steps is the
  quotient of the integer division by 100: it is the one integer \<open>q\<close> with
  \<open>100 * q \<le> steps < 100 * q + 100\<close>, so the rounding of the quotient changes nothing
  there; and the nine inputs 0, 1, 99, 100, 199, 200, 500, 1000, 10000 give
  0, 0, 0, 1, 1, 2, 5, 10, 100.
\<close>

theorem C2_powerFromSteps_floor:
  "(0 \<le> steps \<and> steps \<le> MAX_SAFE_INTEGER \<longrightarrow>
      calculatePowerLevelFromSteps steps = steps div 100 \<and>
      0 \<le> calculatePowerLevelFromSteps steps \<and>
      100 * calculatePowerLevelFromSteps steps \<le> steps \<and>
      steps < 100 * calculatePowerLevelFromSteps steps + 100) \<and>
   map calculatePowerLevelFromSteps [0, 1, 99, 100, 199, 200, 500, 1000, 10000]
     = [0, 0, 0, 1, 1, 2, 5, 10, 100]"
proof -
  have "0 \<le> steps div 100 \<and> 100 * (steps div 100) \<le> steps \<and>
        steps < 100 * (steps div 100) + 100" if "0 \<le> steps"
    using that by presburger
  then have bounded: "0 \<le> steps \<and> steps \<le> MAX_SAFE_INTEGER \<longrightarrow>
      calculatePowerLevelFromSteps steps = steps div 100 \<and>
      0 \<le> calculatePowerLevelFromSteps steps \<and>
      100 * calculatePowerLevelFromSteps steps \<le> steps \<and>
      steps < 100 * calculatePowerLevelFromSteps steps + 100"
    by (simp add: calculatePowerLevelFromSteps_div)
  have "calculatePowerLevelFromSteps n = n div 100" if "n \<in> set [0, 1, 99, 100, 199, 200, 500, 1000, 10000]" for n
    using that by (intro calculatePowerLevelFromSteps_div) (auto simp: MAX_SAFE_INTEGER_def)
  then have listed: "map calculatePowerLevelFromSteps [0, 1, 99, 100, 199, 200, 500, 1000, 10000]
     = [0, 0, 0, 1, 1, 2, 5, 10, 100]"
    by simp
  from bounded listed show ?thesis ..
qed

theorem C2_powerFromSteps_floor_witness:
  "(0::int) \<le> 250 \<and> 250 \<le> MAX_SAFE_INTEGER \<and> calculatePowerLevelFromSteps 250 = 2 \<and>
   0 \<le> MAX_SAFE_INTEGER \<and>
   calculatePowerLevelFromSteps MAX_SAFE_INTEGER = 90071992547409"
proof -
  have a: "(0::int) \<le> 250" "250 \<le> MAX_SAFE_INTEGER" "0 \<le> MAX_SAFE_INTEGER"
    by (simp_all add: MAX_SAFE_INTEGER_def)
  from C2_powerFromSteps_floor [of 250] a have b: "calculatePowerLevelFromSteps 250 = 2"
    by simp
  from C2_powerFromSteps_floor [of MAX_SAFE_INTEGER] a
  have "calculatePowerLevelFromSteps MAX_SAFE_INTEGER = MAX_SAFE_INTEGER div 100"
    by simp
  then have c: "calculatePowerLevelFromSteps MAX_SAFE_INTEGER = 90071992547409"
    by (simp add: MAX_SAFE_INTEGER_def)
  from a b c show ?thesis by simp
qed

section \<open>Properties of the storage service and of the power hook\<close>

lemmas result_defs = and_then_def try_catch_def getItem_def setItem_def

lemma getPowerLevels_returns:
  "getPowerLevels rd st =
     Inr (case rd of None \<Rightarrow> parse_or_empty (POWER_LEVELS st) | Some e \<Rightarrow> Map.empty)"
  by (simp add: getPowerLevels_def result_defs split: option.splits)

lemma getStepProgressMap_returns:
  "getStepProgressMap rd st =
     Inr (case rd of None \<Rightarrow> parse_or_empty (STEP_PROGRESS st) | Some e \<Rightarrow> Map.empty)"
  by (simp add: getStepProgressMap_def result_defs split: option.splits)

lemma savePowerLevel_returns:
  "savePowerLevel rd wr pokemonId powerLevel st =
     Inr (case wr of
            Some e \<Rightarrow> st
          | None \<Rightarrow> st\<lparr>POWER_LEVELS :=
              Some ((case rd of None \<Rightarrow> parse_or_empty (POWER_LEVELS st) | Some e \<Rightarrow> Map.empty)
                      (pokemonId \<mapsto> powerLevel))\<rparr>)"
  by (simp add: savePowerLevel_def getPowerLevels_returns result_defs split: option.splits)

lemma saveStepProgress_returns:
  "saveStepProgress rd wr pokemonId steps st =
     Inr (case wr of
            Some e \<Rightarrow> st
          | None \<Rightarrow> st\<lparr>STEP_PROGRESS :=
              Some (let progress = (case rd of None \<Rightarrow> parse_or_empty (STEP_PROGRESS st)
                                      | Some e \<Rightarrow> Map.empty)
                    in if steps \<le> 0 then progress(pokemonId := None)
                       else progress(pokemonId \<mapsto> steps))\<rparr>)"
  by (simp add: saveStepProgress_def getStepProgressMap_returns result_defs split: option.splits)

lemma getPowerLevel_returns:
  "getPowerLevel rd pokemonId st =
     Inr (case rd of None \<Rightarrow> or_zero (power_entry st pokemonId) | Some e \<Rightarrow> 0)"
  by (simp add: getPowerLevel_def getPowerLevels_returns power_entry_def and_then_def or_zero_def
      split: option.splits)

lemma getStepProgress_returns:
  "getStepProgress rd pokemonId st =
     Inr (case rd of None \<Rightarrow> or_zero (step_entry st pokemonId) | Some e \<Rightarrow> 0)"
  by (simp add: getStepProgress_def getStepProgressMap_returns step_entry_def and_then_def
      or_zero_def split: option.splits)

lemma loadPowerLevel_returns:
  "loadPowerLevel rdPower rdSteps (Some p) st h =
     Inr (h\<lparr>basePowerLevel :=
               (case rdPower of None \<Rightarrow> or_zero (power_entry st (pokemon_id p)) | Some e \<Rightarrow> 0),
             storedSteps :=
               (case rdSteps of None \<Rightarrow> or_zero (step_entry st (pokemon_id p)) | Some e \<Rightarrow> 0),
             isLoading := False\<rparr>)"
  by (simp add: loadPowerLevel_def getPowerLevel_returns getStepProgress_returns
      and_then_def try_catch_def)

text \<open>
  Claim C9.  Loading an entity's progress never throws: \<open>loadPowerLevel\<close> returns a
  hook state for every outcome of the two reads.  The banked power level it loads
  is 0 when the read of the power levels fails or has no entry for the entity, and
  the stored steps are 0 when the read of the step progress fails or has no entry
  for the entity.  The four read operations of the storage service never throw
  either, and a failed read gives the empty mapping.
\<close>

theorem C9_load_defaults:
  "(\<exists>h'. loadPowerLevel rdPower rdSteps pokemon st h = Inr h' \<and>
      (\<forall>p. pokemon = Some p \<longrightarrow>
         ((rdPower \<noteq> None \<or> power_entry st (pokemon_id p) = None) \<longrightarrow> basePowerLevel h' = 0) \<and>
         ((rdSteps \<noteq> None \<or> step_entry st (pokemon_id p) = None) \<longrightarrow> storedSteps h' = 0))) \<and>
   (\<exists>m. getPowerLevels rd st = Inr m \<and> (rd \<noteq> None \<longrightarrow> m = Map.empty)) \<and>
   (\<exists>m. getStepProgressMap rd st = Inr m \<and> (rd \<noteq> None \<longrightarrow> m = Map.empty)) \<and>
   (\<exists>v. getPowerLevel rd pokemonId st = Inr v \<and>
      ((rd \<noteq> None \<or> power_entry st pokemonId = None) \<longrightarrow> v = 0)) \<and>
   (\<exists>v. getStepProgress rd pokemonId st = Inr v \<and>
      ((rd \<noteq> None \<or> step_entry st pokemonId = None) \<longrightarrow> v = 0))"
proof -
  have load: "\<exists>h'. loadPowerLevel rdPower rdSteps pokemon st h = Inr h' \<and>
      (\<forall>p. pokemon = Some p \<longrightarrow>
         ((rdPower \<noteq> None \<or> power_entry st (pokemon_id p) = None) \<longrightarrow> basePowerLevel h' = 0) \<and>
         ((rdSteps \<noteq> None \<or> step_entry st (pokemon_id p) = None) \<longrightarrow> storedSteps h' = 0))"
  proof (cases pokemon)
    case None
    then show ?thesis by (simp add: loadPowerLevel_def)
  next
    case (Some p)
    then show ?thesis
      by (auto simp: loadPowerLevel_returns or_zero_def split: option.splits)
  qed
  have maps: "(\<exists>m. getPowerLevels rd st = Inr m \<and> (rd \<noteq> None \<longrightarrow> m = Map.empty))"
    "(\<exists>m. getStepProgressMap rd st = Inr m \<and> (rd \<noteq> None \<longrightarrow> m = Map.empty))"
    by (auto simp: getPowerLevels_returns getStepProgressMap_returns)
  have vals: "(\<exists>v. getPowerLevel rd pokemonId st = Inr v \<and>
      ((rd \<noteq> None \<or> power_entry st pokemonId = None) \<longrightarrow> v = 0))"
    "(\<exists>v. getStepProgress rd pokemonId st = Inr v \<and>
      ((rd \<noteq> None \<or> step_entry st pokemonId = None) \<longrightarrow> v = 0))"
    by (auto simp: getPowerLevel_returns getStepProgress_returns or_zero_def split: option.splits)
  from load maps vals show ?thesis by blast
qed

theorem C9_load_defaults_witness:
  "\<exists>h'. loadPowerLevel (Some (Error ''read failed'')) (Some (Error ''read failed''))
           (Some pikachu) example_store power_initial = Inr h' \<and>
         basePowerLevel h' = 0 \<and> storedSteps h' = 0"
  using C9_load_defaults [where rdPower = "Some (Error ''read failed'')"
      and rdSteps = "Some (Error ''read failed'')" and pokemon = "Some pikachu"
      and st = example_store and h = power_initial]
  by auto

lemma sparse_saveStepProgress:
  assumes "sparse st" "saveStepProgress rd wr pokemonId steps st = Inr st'"
  shows "sparse st'"
  using assms
  by (auto simp: saveStepProgress_returns sparse_def step_entry_def parse_or_empty_def Let_def
      split: option.splits if_splits)

lemma sparse_perform: "sparse st \<Longrightarrow> sparse (perform c st)"
proof (cases c)
  case (SavePowerLevel rd wr pokemonId powerLevel)
  have "step_entry (perform c st) = step_entry st"
    by (simp add: SavePowerLevel perform_def savePowerLevel_returns step_entry_def fun_eq_iff
        split: option.splits)
  then show "sparse st \<Longrightarrow> sparse (perform c st)"
    by (simp add: sparse_def)
next
  case (SaveStepProgress rd wr pokemonId steps)
  assume "sparse st"
  then show "sparse (perform c st)"
    using sparse_saveStepProgress [of st rd wr pokemonId steps]
    by (simp add: SaveStepProgress perform_def saveStepProgress_returns)
next
  case (ClearAll rmPower rmSteps)
  assume "sparse st"
  then show "sparse (perform c st)"
    by (auto simp: ClearAll perform_def clearAll_def removeItem_def sparse_def step_entry_def
        parse_or_empty_def split: option.splits)
qed

lemma sparse_perform_all: "sparse st \<Longrightarrow> sparse (perform_all cs st)"
  by (induction cs arbitrary: st) (simp_all add: sparse_perform)

lemma sparse_empty_store: "sparse empty_store"
  by (simp add: sparse_def empty_store_def step_entry_def parse_or_empty_def)

text \<open>
  Claim C8.  A write of an entity's stored steps with a number that is not strictly
  positive removes the entity's key from the step-progress mapping instead of
  storing the number, whether the write comes from \<open>saveStepProgress\<close> itself, from
  the write-through effect or from \<open>refreshPower\<close>; a strictly positive number is
  stored; a write that fails leaves the store as it was.  So a sparse store stays
  sparse under every one of these operations, for every outcome of the read and
  of the write; no call of the storage service throws, and after every sequence
  of calls that write, made on the empty store, the store is sparse.
\<close>

theorem C8_step_progress_sparse:
  "(\<exists>st'. saveStepProgress rd wr pokemonId steps st = Inr st' \<and>
      (steps \<le> 0 \<and> wr = None \<longrightarrow> step_entry st' pokemonId = None) \<and>
      (0 < steps \<and> wr = None \<longrightarrow> step_entry st' pokemonId = Some steps) \<and>
      (wr \<noteq> None \<longrightarrow> st' = st) \<and>
      (sparse st \<longrightarrow> sparse st')) \<and>
   (\<exists>st'. persist_effect rd wr (Some p) h tr st = Inr st' \<and>
      (totalSteps h tr \<le> 0 \<and> wr = None \<longrightarrow> step_entry st' (pokemon_id p) = None) \<and>
      (sparse st \<longrightarrow> sparse st')) \<and>
   (\<exists>st'. refreshPower rdPower wrPower rd wr (Some p) h tr st = Inr st' \<and>
      (totalSteps h tr \<le> 0 \<and> wr = None \<longrightarrow> step_entry st' (pokemon_id p) = None) \<and>
      (sparse st \<longrightarrow> sparse st')) \<and>
   (\<exists>st'. call_result c st = Inr st') \<and>
   sparse (perform_all cs empty_store)"
proof -
  obtain st1 where st1: "saveStepProgress rd wr pokemonId steps st = Inr st1"
    by (simp add: saveStepProgress_returns)
  have a: "steps \<le> 0 \<and> wr = None \<longrightarrow> step_entry st1 pokemonId = None"
    using st1 by (auto simp: saveStepProgress_returns step_entry_def parse_or_empty_def)
  have b: "0 < steps \<and> wr = None \<longrightarrow> step_entry st1 pokemonId = Some steps"
    using st1 by (auto simp: saveStepProgress_returns step_entry_def parse_or_empty_def)
  have c: "wr \<noteq> None \<longrightarrow> st1 = st"
    using st1 by (auto simp: saveStepProgress_returns)
  have d: "sparse st \<longrightarrow> sparse st1"
    using st1 sparse_saveStepProgress by blast
  obtain st2 where st2: "persist_effect rd wr (Some p) h tr st = Inr st2"
    by (simp add: persist_effect_def saveStepProgress_returns)
  have e: "totalSteps h tr \<le> 0 \<and> wr = None \<longrightarrow> step_entry st2 (pokemon_id p) = None"
    using st2
    by (auto simp: persist_effect_def saveStepProgress_returns step_entry_def parse_or_empty_def)
  have f: "sparse st \<longrightarrow> sparse st2"
    using st2 sparse_saveStepProgress by (auto simp: persist_effect_def)
  obtain stp where stp: "savePowerLevel rdPower wrPower (pokemon_id p) (totalPowerLevel h tr) st = Inr stp"
    by (simp add: savePowerLevel_returns)
  obtain st3 where st3: "saveStepProgress rd wr (pokemon_id p) (totalSteps h tr) stp = Inr st3"
    by (simp add: saveStepProgress_returns)
  have r: "refreshPower rdPower wrPower rd wr (Some p) h tr st = Inr st3"
    using stp st3 by (simp add: refreshPower_def and_then_def)
  have g: "totalSteps h tr \<le> 0 \<and> wr = None \<longrightarrow> step_entry st3 (pokemon_id p) = None"
    using st3 by (auto simp: saveStepProgress_returns step_entry_def parse_or_empty_def)
  have "step_entry stp = step_entry st"
    using stp by (auto simp: savePowerLevel_returns step_entry_def split: option.splits)
  then have "sparse st \<longrightarrow> sparse stp"
    by (simp add: sparse_def)
  then have i: "sparse st \<longrightarrow> sparse st3"
    using st3 sparse_saveStepProgress by blast
  have j: "\<exists>st'. call_result c st = Inr st'"
    by (cases c)
       (simp_all add: savePowerLevel_returns saveStepProgress_returns clearAll_def removeItem_def
         split: option.splits)
  have k: "sparse (perform_all cs empty_store)"
    using sparse_empty_store by (rule sparse_perform_all)
  from st1 a b c d st2 e f r g i j k show ?thesis by blast
qed

lemma sparse_example_store: "sparse example_store"
  by (simp add: sparse_def example_store_def step_entry_def parse_or_empty_def)

theorem C8_step_progress_sparse_witness:
  "\<exists>st'. saveStepProgress None None 25 0 example_store = Inr st' \<and>
      (0::int) \<le> 0 \<and> step_entry st' 25 = None \<and> sparse example_store \<and> sparse st'"
  using C8_step_progress_sparse [of None None 25 0 example_store pikachu power_initial initial None None]
    sparse_example_store
  by auto

text \<open>
  Claim C10, as stated, fails when the read fails and the write succeeds:
  \<open>getPowerLevels\<close> then answers the empty mapping, and \<open>savePowerLevel\<close> writes a
  document that holds the saved entry alone, so the key of every other entity is
  gone.
\<close>

theorem C10_power_levels_counterexample:
  "power_entry two_entities 1 = Some 5 \<and>
   savePowerLevel (Some (Error ''read failed'')) None 25 0 two_entities
     = Inr (two_entities\<lparr>POWER_LEVELS := Some [25 \<mapsto> 0]\<rparr>) \<and>
   power_entry (two_entities\<lparr>POWER_LEVELS := Some [25 \<mapsto> 0]\<rparr>) 25 = Some 0 \<and>
   power_entry (two_entities\<lparr>POWER_LEVELS := Some [25 \<mapsto> 0]\<rparr>) 1 = None"
  by (simp add: savePowerLevel_returns two_entities_def power_entry_def parse_or_empty_def)

text \<open>
  Claim C10, amended.  The power-level namespace is not sparse: \<open>savePowerLevel\<close>
  never throws and has no branch that deletes.  When its write succeeds, the
  entity's key holds the level that was saved, an explicit 0 for the level 0, and
  the mapping it writes has the keys of the mapping it read and the entity's key;
  so when the read succeeds too, no key is removed.  A write that fails leaves the
  store as it was.
\<close>

theorem C10_power_levels_not_sparse:
  "\<exists>st' powerLevels.
      savePowerLevel rd wr pokemonId powerLevel st = Inr st' \<and>
      getPowerLevels rd st = Inr powerLevels \<and>
      (wr = None \<longrightarrow> power_entry st' pokemonId = Some powerLevel) \<and>
      (wr = None \<and> powerLevel = 0 \<longrightarrow> power_entry st' pokemonId = Some 0) \<and>
      (wr = None \<longrightarrow> dom (power_entry st') = insert pokemonId (dom powerLevels)) \<and>
      (rd = None \<longrightarrow> dom (power_entry st) \<subseteq> dom (power_entry st')) \<and>
      (wr \<noteq> None \<longrightarrow> st' = st)"
  by (cases rd; cases wr)
     (auto simp: savePowerLevel_returns getPowerLevels_returns power_entry_def parse_or_empty_def
        split: if_splits)

theorem C10_power_levels_not_sparse_witness:
  "\<exists>st'. savePowerLevel None None 25 0 example_store = Inr st' \<and>
      power_entry st' 25 = Some 0 \<and> power_entry example_store 25 = Some 2"
  using C10_power_levels_not_sparse [of None None 25 0 example_store]
  by (auto simp: example_store_def power_entry_def parse_or_empty_def)

section \<open>Properties of the step-tracking hook\<close>

lemmas session_defs =
  startTracking_enter_def startTracking_available_def startTracking_requested_def
  startTracking_permitted_def startTracking_subscribe_def startTracking_catch_def
  stopTracking_def remove_subscription_def clear_interval_def resetSteps_def watch_callback_def poll_fires_def poll_settled_def
  requestPermission_def updatePermissionState_def parsePermission_def
  and_then_def try_catch_def initial_def

subsection \<open>Effective steps\<close>

lemma calculatedSteps_nonneg: "0 \<le> calculatedSteps s"
  by (simp add: calculatedSteps_def)



subsection \<open>Permission errors\<close>

lemma requestPermission_returns:
  "\<exists>isGranted s'. requestPermission held requestPermissionsAsync s = Inr (isGranted, s')"
proof (cases requestPermissionsAsync)
  case None
  then show ?thesis by (auto simp: requestPermission_def try_catch_def)
next
  case (Some settled)
  show ?thesis
  proof (cases settled)
    case (Inl err)
    with Some show ?thesis by (auto simp: requestPermission_def and_then_def try_catch_def)
  next
    case (Inr response)
    obtain g s1 where "updatePermissionState held response s = (g, s1)"
      by (cases "updatePermissionState held response s") auto
    with Some Inr show ?thesis by (auto simp: requestPermission_def and_then_def try_catch_def)
  qed
qed

text \<open>
  Claim C4, as stated, fails for the permission request: in a hook that holds the
  permission after a query that granted it, \<^verbatim>\<open>requestPermissionsAsync\<close> rejects, and
  \<open>requestPermission\<close> catches the error and answers \<open>False\<close> with the permission
  withdrawn.
\<close>

theorem C4_permission_errors_counterexample:
  "checkPermissionStatus None (Some (Inr (Some granted_response))) None initial
     = Inr (True, initial\<lparr>hasPermission := True\<rparr>) \<and>
   requestPermission None (Some (Inl (Error ''permission service failed'')))
       (initial\<lparr>hasPermission := True\<rparr>)
     = Inr (False, initial\<lparr>error := Some ''Unable to request pedometer permission'',
                            hasPermission := False\<rparr>)"
  by (simp add: checkPermissionStatus_def requestPermission_def updatePermissionState_def
      parsePermission_def granted_response_def and_then_def try_catch_def initial_def)

text \<open>
  Claim C4, amended.  Neither \<open>checkPermissionStatus\<close> nor \<open>requestPermission\<close>
  throws.  When the permission query rejects, \<open>checkPermissionStatus\<close> treats the
  permission as granted (it answers \<open>True\<close> and sets \<open>hasPermission\<close> and
  \<open>canAskAgain\<close>); when the permission request rejects, \<open>requestPermission\<close>
  answers \<open>False\<close>, clears \<open>hasPermission\<close> and records an error message.
\<close>

theorem C4_permission_errors:
  "checkPermissionStatus held (Some (Inl e)) requestPermissionsAsync s
     = Inr (True, s\<lparr>hasPermission := True, canAskAgain := True\<rparr>) \<and>
   requestPermission held (Some (Inl e)) s
     = Inr (False, s\<lparr>error := Some ''Unable to request pedometer permission'',
                      hasPermission := False\<rparr>) \<and>
   (\<exists>isGranted s'. requestPermission held requestPermissionsAsync s = Inr (isGranted, s')) \<and>
   (\<exists>isGranted s'. checkPermissionStatus held getPermissionsAsync requestPermissionsAsync s
        = Inr (isGranted, s'))"
proof -
  have a: "checkPermissionStatus held (Some (Inl e)) requestPermissionsAsync s
     = Inr (True, s\<lparr>hasPermission := True, canAskAgain := True\<rparr>)"
    by (simp add: checkPermissionStatus_def and_then_def try_catch_def)
  have b: "requestPermission held (Some (Inl e)) s
     = Inr (False, s\<lparr>error := Some ''Unable to request pedometer permission'',
                      hasPermission := False\<rparr>)"
    by (simp add: requestPermission_def and_then_def try_catch_def)
  have c: "\<exists>isGranted s'. requestPermission held requestPermissionsAsync s = Inr (isGranted, s')" for s
    by (rule requestPermission_returns)
  have d: "\<exists>isGranted s'. checkPermissionStatus held getPermissionsAsync requestPermissionsAsync s
        = Inr (isGranted, s')"
  proof (cases getPermissionsAsync)
    case None
    then show ?thesis by (auto simp: checkPermissionStatus_def try_catch_def)
  next
    case (Some settled)
    show ?thesis
    proof (cases settled)
      case (Inl err)
      with Some show ?thesis by (auto simp: checkPermissionStatus_def and_then_def try_catch_def)
    next
      case (Inr response)
      obtain g s1 where u: "updatePermissionState held response s = (g, s1)"
        by (cases "updatePermissionState held response s") auto
      from c [of s1] obtain g2 s2 where r: "requestPermission held requestPermissionsAsync s1 = Inr (g2, s2)"
        by blast
      from Some Inr u r show ?thesis
        by (auto simp: checkPermissionStatus_def and_then_def try_catch_def)
    qed
  qed
  from a b c d show ?thesis by blast
qed

subsection \<open>Monotonicity of the effective steps\<close>

lemma ascending_mono: "ascending r evs \<Longrightarrow> r' \<le> r \<Longrightarrow> ascending r' evs"
  by (induction evs arbitrary: r r') (auto split: option.splits)

lemma channel_step_baseline:
  "channel_event ev \<Longrightarrow> baselineRef (step api ev s) = baselineRef s"
  by (cases ev) (auto simp: watch_callback_def poll_fires_def poll_settled_def Let_def
      split: option.splits sum.splits)

lemma channel_step_undelivered:
  "channel_event ev \<Longrightarrow> delivered ev = None \<Longrightarrow> rawSteps (step api ev s) = rawSteps s"
  by (cases ev) (auto simp: watch_callback_def poll_fires_def poll_settled_def Let_def
      split: option.splits sum.splits if_splits)

lemma channel_step_delivered:
  "channel_event ev \<Longrightarrow> delivered ev = Some steps \<Longrightarrow>
     rawSteps (step api ev s) = rawSteps s \<or> rawSteps (step api ev s) = steps"
  by (cases ev) (auto simp: watch_callback_def poll_fires_def poll_settled_def Let_def
      split: option.splits sum.splits if_splits)

lemma ascending_states:
  "list_all channel_event evs \<Longrightarrow> ascending r evs \<Longrightarrow> rawSteps s \<le> r \<Longrightarrow>
     t \<in> set (states api evs s) \<Longrightarrow>
     rawSteps s \<le> rawSteps t \<and> baselineRef t = baselineRef s"
proof (induction evs arbitrary: s r)
  case Nil
  then show ?case by simp
next
  case (Cons ev evs)
  show ?case
  proof (cases "t = s")
    case True
    then show ?thesis by simp
  next
    case False
    with Cons.prems have t: "t \<in> set (states api evs (step api ev s))" by simp
    from Cons.prems have ch: "channel_event ev" "list_all channel_event evs" by simp_all
    have base: "baselineRef (step api ev s) = baselineRef s"
      using ch(1) by (rule channel_step_baseline)
    show ?thesis
    proof (cases "delivered ev")
      case None
      with Cons.prems have asc: "ascending r evs" by simp
      have raw: "rawSteps (step api ev s) = rawSteps s"
        using ch(1) None by (rule channel_step_undelivered)
      from Cons.IH [OF ch(2) asc _ t] raw Cons.prems(3) base show ?thesis by simp
    next
      case (Some steps)
      with Cons.prems have asc: "r \<le> steps" "ascending steps evs" by simp_all
      from channel_step_delivered [OF ch(1) Some, of api s]
      have raw: "rawSteps (step api ev s) = rawSteps s \<or> rawSteps (step api ev s) = steps" .
      with asc(1) Cons.prems(3)
      have le: "rawSteps (step api ev s) \<le> steps" "rawSteps s \<le> rawSteps (step api ev s)"
        by auto
      from Cons.IH [OF ch(2) asc(2) le(1) t] le(2) base show ?thesis by simp
    qed
  qed
qed

lemma ascending_sorted:
  "list_all channel_event evs \<Longrightarrow> ascending r evs \<Longrightarrow> rawSteps s \<le> r \<Longrightarrow>
     sorted (map calculatedSteps (states api evs s))"
proof (induction evs arbitrary: s r)
  case Nil
  then show ?case by simp
next
  case (Cons ev evs)
  from Cons.prems have ch: "channel_event ev" "list_all channel_event evs" by simp_all
  have later: "calculatedSteps s \<le> calculatedSteps t"
    if "t \<in> set (states api (ev # evs) s)" for t
    using ascending_states [OF Cons.prems that] by (auto simp: calculatedSteps_def)
  have rest: "sorted (map calculatedSteps (states api evs (step api ev s)))"
  proof (cases "delivered ev")
    case None
    with Cons.prems have asc: "ascending r evs" by simp
    have "rawSteps (step api ev s) = rawSteps s"
      using ch(1) None by (rule channel_step_undelivered)
    with Cons.prems(3) have "rawSteps (step api ev s) \<le> r" by simp
    from Cons.IH [OF ch(2) asc this] show ?thesis .
  next
    case (Some steps)
    with Cons.prems have asc: "r \<le> steps" "ascending steps evs" by simp_all
    from channel_step_delivered [OF ch(1) Some, of api s] asc(1) Cons.prems(3)
    have "rawSteps (step api ev s) \<le> steps" by auto
    from Cons.IH [OF ch(2) asc(2) this] show ?thesis .
  qed
  from later rest show ?case by auto
qed

lemma run_in_states: "run api evs s \<in> set (states api evs s)"
  by (induction evs arbitrary: s) auto

text \<open>
  Claim C3, as stated, fails: within one tracking period a push update of 10 steps
  followed by a poll result of 5 steps takes the reported steps from 10 down to 5.
\<close>

theorem C3_effectiveSteps_counterexample:
  "isTracking (run True (start_events @ [Watch_callback 10]) initial) \<and>
   calculatedSteps (run True (start_events @ [Watch_callback 10]) initial) = 10 \<and>
   isTracking (run True (start_events @ [Watch_callback 10, Interval_fires,
                  Settle_getStepCount (Inr 5)]) initial) \<and>
   calculatedSteps (run True (start_events @ [Watch_callback 10, Interval_fires,
                  Settle_getStepCount (Inr 5)]) initial) = 5"
  by (simp add: start_events_def granted_response_def session_defs Let_def calculatedSteps_def)

text \<open>
  Claim C3, amended.  Over every sequence of push updates and poll results in which
  the numbers handed to \<^verbatim>\<open>setRawSteps\<close> never go down, starting from the current raw
  counter, the reported steps never go down.  A poll result that is not strictly
  positive leaves the raw counter as it is, a strictly positive one overwrites it,
  as does every push update of a live subscription; a tracking period begins with
  0 reported steps.
\<close>

theorem C3_effectiveSteps_monotone:
  "(list_all channel_event evs \<and> ascending (rawSteps s) evs \<longrightarrow>
      sorted (map calculatedSteps (states api evs s)) \<and>
      calculatedSteps s \<le> calculatedSteps (run api evs s)) \<and>
   (steps \<le> 0 \<longrightarrow> rawSteps (poll_settled (Inr steps) s) = rawSteps s) \<and>
   (0 < steps \<and> 0 < polling s \<longrightarrow> rawSteps (poll_settled (Inr steps) s) = steps) \<and>
   (0 < length (watchers s) \<longrightarrow> rawSteps (watch_callback steps s) = steps) \<and>
   calculatedSteps (startTracking_subscribe now s) = 0"
proof -
  have a: "sorted (map calculatedSteps (states api evs s)) \<and>
      calculatedSteps s \<le> calculatedSteps (run api evs s)"
    if h: "list_all channel_event evs" "ascending (rawSteps s) evs"
  proof -
    have "sorted (map calculatedSteps (states api evs s))"
      using h by (rule ascending_sorted) simp
    moreover have "calculatedSteps s \<le> calculatedSteps (run api evs s)"
      using ascending_states [OF h order_refl run_in_states, where api = api]
      by (auto simp: calculatedSteps_def)
    ultimately show ?thesis ..
  qed
  have b: "steps \<le> 0 \<longrightarrow> rawSteps (poll_settled (Inr steps) s) = rawSteps s"
    by (simp add: poll_settled_def Let_def)
  have c: "0 < steps \<and> 0 < polling s \<longrightarrow> rawSteps (poll_settled (Inr steps) s) = steps"
    by (simp add: poll_settled_def Let_def)
  have d: "0 < length (watchers s) \<longrightarrow> rawSteps (watch_callback steps s) = steps"
    by (auto simp: watch_callback_def)
  have e: "calculatedSteps (startTracking_subscribe now s) = 0"
    by (simp add: startTracking_subscribe_def calculatedSteps_def Let_def)
  from a b c d e show ?thesis by blast
qed

theorem C3_effectiveSteps_monotone_witness:
  "list_all channel_event walk \<and>
   ascending (rawSteps (run True start_events initial)) walk \<and>
   map calculatedSteps (states True walk (run True start_events initial)) = [0, 3, 3, 3, 3, 8, 8] \<and>
   sorted (map calculatedSteps (states True walk (run True start_events initial)))"
proof -
  have a: "list_all channel_event walk"
    by code_simp
  have b: "ascending (rawSteps (run True start_events initial)) walk"
    by code_simp
  have c: "map calculatedSteps (states True walk (run True start_events initial))
             = [0, 3, 3, 3, 3, 8, 8]"
    by code_simp
  from C3_effectiveSteps_monotone [of walk "run True start_events initial" True] a b
  have d: "sorted (map calculatedSteps (states True walk (run True start_events initial)))"
    by blast
  from a b c d show ?thesis by blast
qed

subsection \<open>Starting twice\<close>

text \<open>
  Claim C6, as stated, fails while the session is starting: a call of
  \<^verbatim>\<open>startTracking\<close> made while an earlier call is suspended passes the guard, and
  when both calls resume there are two subscriptions and two timers.
\<close>

theorem C6_startTracking_counterexample:
  "is_starting (run True [Call_startTracking] initial) \<and>
   length (awaitAvailable (run True [Call_startTracking] initial)) = 1 \<and>
   length (awaitAvailable (run True [Call_startTracking, Call_startTracking] initial)) = 2 \<and>
   watchers (run True double_start initial) = [0, 2] \<and>
   intervals (run True double_start initial) = [1, 3]"
  by code_simp

text \<open>
  Claim C6, amended.  Once a call of \<^verbatim>\<open>startTracking\<close> has subscribed (the flag
  \<open>isInitializedRef\<close> is set, together with \<open>isTracking\<close>), every further call, and
  every number of them, returns at once: the whole state is unchanged, and with
  it the subscriptions and the timers.
\<close>

theorem C6_startTracking_idempotent:
  "(isInitializedRef s \<longrightarrow>
      step api Call_startTracking s = s \<and>
      run api (replicate n Call_startTracking) s = s \<and>
      watchers (step api Call_startTracking s) = watchers s \<and>
      intervals (step api Call_startTracking s) = intervals s) \<and>
   isInitializedRef (startTracking_subscribe now s) \<and>
   isTracking (startTracking_subscribe now s)"
proof -
  have "run api (replicate n Call_startTracking) s = s" if "isInitializedRef s"
    using that by (induction n) (simp_all add: startTracking_enter_def)
  then show ?thesis
    by (simp add: startTracking_enter_def startTracking_subscribe_def Let_def)
qed

theorem C6_startTracking_idempotent_witness:
  "isInitializedRef (run True start_events initial) \<and>
   watchers (run True start_events initial) = [0] \<and>
   intervals (run True start_events initial) = [1] \<and>
   run True (start_events @ [Call_startTracking]) initial = run True start_events initial \<and>
   watchers (run True (start_events @ [Call_startTracking]) initial) = [0] \<and>
   intervals (run True (start_events @ [Call_startTracking]) initial) = [1]"
proof -
  have a: "isInitializedRef (run True start_events initial)"
    "watchers (run True start_events initial) = [0]"
    "intervals (run True start_events initial) = [1]"
    by code_simp+
  have b: "run True (start_events @ [Call_startTracking]) initial
      = step True Call_startTracking (run True start_events initial)"
    by (simp add: start_events_def)
  from C6_startTracking_idempotent [of "run True start_events initial" True 1 0] a
  have "step True Call_startTracking (run True start_events initial) = run True start_events initial"
    by blast
  with a b show ?thesis by simp
qed

subsection \<open>Stopping\<close>

lemma released_step:
  assumes "not_start ev"
    and "watchers s = []" "intervals s = []" "polling s = 0"
    and "awaitAvailable s = []" "awaitPermission s = []"
  shows "rawSteps (step api ev s) = rawSteps s \<and>
         watchers (step api ev s) = [] \<and> intervals (step api ev s) = [] \<and>
         polling (step api ev s) = 0 \<and>
         awaitAvailable (step api ev s) = [] \<and> awaitPermission (step api ev s) = []"
  using assms
  by (cases ev)
     (auto simp: stopTracking_def remove_subscription_def clear_interval_def resetSteps_def
       watch_callback_def poll_fires_def poll_settled_def split: option.splits sum.splits)

lemma released_run:
  assumes "list_all not_start evs"
    and "watchers s = []" "intervals s = []" "polling s = 0"
    and "awaitAvailable s = []" "awaitPermission s = []"
  shows "rawSteps (run api evs s) = rawSteps s \<and>
         watchers (run api evs s) = [] \<and> intervals (run api evs s) = []"
  using assms
proof (induction evs arbitrary: s)
  case Nil
  then show ?case by simp
next
  case (Cons ev evs)
  from Cons.prems have ev: "not_start ev" and evs: "list_all not_start evs"
    by simp_all
  note st = released_step [OF ev Cons.prems(2-6), of api]
  from Cons.IH [OF evs, of "step api ev s"] st show ?case
    by simp
qed

text \<open>
  Claim C7, as stated, fails in two ways.  A poll that is in flight: a timer fires,
  the hook is stopped while \<^verbatim>\<open>getStepCountAsync\<close> is pending, and the result of 7
  steps is stored in the raw counter after the stop.  A start that is in flight:
  the hook is stopped while a second call of \<^verbatim>\<open>startTracking\<close> is suspended; the stop
  leaves no subscription and no timer, the suspended call then resumes and
  subscribes, and a push update of 9 steps is stored.
\<close>

theorem C7_stopTracking_counterexample:
  "watchers (run True (start_events @ [Interval_fires, Call_stopTracking None]) initial) = [] \<and>
   intervals (run True (start_events @ [Interval_fires, Call_stopTracking None]) initial) = [] \<and>
   rawSteps (run True (start_events @ [Interval_fires, Call_stopTracking None]) initial) = 0 \<and>
   rawSteps (run True (start_events @ [Interval_fires, Call_stopTracking None,
               Settle_getStepCount (Inr 7)]) initial) = 7 \<and>
   watchers (run True stop_while_starting initial) = [] \<and>
   intervals (run True stop_while_starting initial) = [] \<and>
   polling (run True stop_while_starting initial) = 0 \<and>
   rawSteps (run True stop_while_starting initial) = 0 \<and>
   rawSteps (run True (stop_while_starting @ resume_after_stop) initial) = 9"
  by code_simp

text \<open>
  Claim C7, amended.  \<open>stopTracking\<close> changes nothing when the hook is not tracking,
  is idempotent, and leaves the raw counter as it is.  A start on a session
  without live channels makes the session own its channels.  When a tracking
  session that owns its channels is stopped and \<^verbatim>\<open>remove\<close> returns normally, no
  subscription and no timer is left, the refs and the flags are cleared, and a
  push update and a timer that fires change nothing.  When moreover no poll and
  no call of \<^verbatim>\<open>startTracking\<close> was in flight at the stop, the raw counter stays as it
  was, and no subscription and no timer appears, over every sequence of events
  that has no new call of \<^verbatim>\<open>startTracking\<close>.
\<close>

theorem C7_stopTracking_releases:
  "(\<not> isInitializedRef s \<longrightarrow> stopTracking removal s = s) \<and>
   stopTracking removal (stopTracking removal s) = stopTracking removal s \<and>
   stopTracking removal (stopTracking None s) = stopTracking None s \<and>
   rawSteps (stopTracking removal s) = rawSteps s \<and>
   (watchers s = [] \<and> intervals s = [] \<longrightarrow>
      isInitializedRef (startTracking_subscribe now s) \<and>
      owns_channels (startTracking_subscribe now s)) \<and>
   (isInitializedRef s \<and> owns_channels s \<longrightarrow>
      watchers (stopTracking None s) = [] \<and> intervals (stopTracking None s) = [] \<and>
      subscriptionRef (stopTracking None s) = None \<and>
      pollIntervalRef (stopTracking None s) = None \<and>
      \<not> isInitializedRef (stopTracking None s) \<and> \<not> isTracking (stopTracking None s) \<and>
      watch_callback steps (stopTracking None s) = stopTracking None s \<and>
      poll_fires (stopTracking None s) = stopTracking None s) \<and>
   (isInitializedRef s \<and> owns_channels s \<and> polling s = 0 \<and> \<not> is_starting s \<and>
    list_all not_start evs \<longrightarrow>
      rawSteps (run api evs (stopTracking None s)) = rawSteps s \<and>
      watchers (run api evs (stopTracking None s)) = [] \<and>
      intervals (run api evs (stopTracking None s)) = [])"
proof -
  have a: "\<not> isInitializedRef s \<longrightarrow> stopTracking removal s = s"
    by (simp add: stopTracking_def)
  have b: "stopTracking removal (stopTracking removal s) = stopTracking removal s"
    by (simp add: stopTracking_def split: sum.splits)
  have b': "stopTracking removal (stopTracking None s) = stopTracking None s"
    by (simp add: stopTracking_def remove_subscription_def split: option.splits)
  have c: "rawSteps (stopTracking r s) = rawSteps s" for r
    by (simp add: stopTracking_def remove_subscription_def clear_interval_def
        split: option.splits)
  have d: "watchers s = [] \<and> intervals s = [] \<longrightarrow>
      isInitializedRef (startTracking_subscribe now s) \<and>
      owns_channels (startTracking_subscribe now s)"
    by (simp add: owns_channels_def startTracking_subscribe_def Let_def)
  have e: "watchers (stopTracking None s) = [] \<and> intervals (stopTracking None s) = [] \<and>
      subscriptionRef (stopTracking None s) = None \<and>
      pollIntervalRef (stopTracking None s) = None \<and>
      \<not> isInitializedRef (stopTracking None s) \<and> \<not> isTracking (stopTracking None s)"
    if "isInitializedRef s" "owns_channels s"
    using that
    by (auto simp: stopTracking_def remove_subscription_def clear_interval_def owns_channels_def
        split: option.splits)
  have f: "watch_callback steps (stopTracking None s) = stopTracking None s \<and>
      poll_fires (stopTracking None s) = stopTracking None s"
    if "isInitializedRef s" "owns_channels s"
    using e [OF that] by (simp add: watch_callback_def poll_fires_def)
  have g: "rawSteps (run api evs (stopTracking None s)) = rawSteps s \<and>
      watchers (run api evs (stopTracking None s)) = [] \<and>
      intervals (run api evs (stopTracking None s)) = []"
    if "isInitializedRef s" "owns_channels s" "polling s = 0" "\<not> is_starting s"
      "list_all not_start evs"
  proof -
    from e [OF that(1,2)]
    have w: "watchers (stopTracking None s) = []" "intervals (stopTracking None s) = []"
      by simp_all
    from that(3,4)
    have p: "polling (stopTracking None s) = 0" "awaitAvailable (stopTracking None s) = []"
      "awaitPermission (stopTracking None s) = []"
      by (simp_all add: stopTracking_def remove_subscription_def clear_interval_def
          is_starting_def split: option.splits)
    from released_run [OF that(5) w p, of api] c show ?thesis
      by simp
  qed
  from a b b' c d e f g show ?thesis by blast
qed

theorem C7_stopTracking_releases_witness:
  "\<not> isInitializedRef initial \<and> stopTracking None initial = initial \<and>
   isInitializedRef (run True start_events initial) \<and>
   owns_channels (run True start_events initial) \<and>
   polling (run True start_events initial) = 0 \<and>
   \<not> is_starting (run True start_events initial) \<and>
   list_all not_start after_stop \<and>
   rawSteps (run True after_stop (stopTracking None (run True (start_events @ [Watch_callback 5]) initial))) = 5 \<and>
   watchers (run True after_stop (stopTracking None (run True (start_events @ [Watch_callback 5]) initial))) = []"
proof -
  define tr where "tr = run True (start_events @ [Watch_callback 5]) initial"
  have a: "\<not> isInitializedRef initial"
    by code_simp
  have b: "isInitializedRef (run True start_events initial)"
    "owns_channels (run True start_events initial)"
    "polling (run True start_events initial) = 0"
    "\<not> is_starting (run True start_events initial)"
    "list_all not_start after_stop"
    by code_simp+
  have c: "isInitializedRef tr" "owns_channels tr" "polling tr = 0" "\<not> is_starting tr"
    "rawSteps tr = 5"
    unfolding tr_def by code_simp+
  note main = C7_stopTracking_releases [where api = True and evs = after_stop and removal = None]
  from main [of initial] a have d: "stopTracking None initial = initial"
    by blast
  from main [of tr] b(5) c
  have e: "rawSteps (run True after_stop (stopTracking None tr)) = 5"
    "watchers (run True after_stop (stopTracking None tr)) = []"
    by simp_all
  from a b d e show ?thesis
    unfolding tr_def by blast
qed

section \<open>End-to-end accrual\<close>

text \<open>
  Claim C1.  For an entity whose store holds the banked power level 2 and 50 stored
  steps, loaded without a read failure, and a step-tracking hook that reports 60
  steps: the total is 110 steps, the power gained from steps is 1 and the total
  power level is 3; \<open>refreshPower\<close> (the save), with reads and writes that succeed,
  leaves the power level 3 and the stored steps 110 in the store.  The other
  operation that writes, the write-through effect, stores the 110 steps and never
  changes the power levels, whatever its read and write do.
\<close>

theorem C1_accrual_and_save:
  assumes "power_entry st (pokemon_id p) = Some 2"
    and "step_entry st (pokemon_id p) = Some 50"
    and "loadPowerLevel None None (Some p) st h0 = Inr h"
    and "calculatedSteps tr = 60"
  shows "totalSteps h tr = 110 \<and> stepsFromPower h tr = 1 \<and> totalPowerLevel h tr = 3 \<and>
     (\<exists>st'. refreshPower None None None None (Some p) h tr st = Inr st' \<and>
        power_entry st' (pokemon_id p) = Some 3 \<and>
        step_entry st' (pokemon_id p) = Some 110 \<and>
        getPowerLevel None (pokemon_id p) st' = Inr 3 \<and>
        getStepProgress None (pokemon_id p) st' = Inr 110) \<and>
     (\<exists>st'. persist_effect rd wr pokemon h tr st = Inr st' \<and>
        POWER_LEVELS st' = POWER_LEVELS st \<and>
        (pokemon = Some p \<and> wr = None \<longrightarrow> step_entry st' (pokemon_id p) = Some 110))"
proof -
  from assms(1-3) have h: "basePowerLevel h = 2" "storedSteps h = 50"
    by (auto simp: loadPowerLevel_returns or_zero_def)
  with assms(4) have t: "totalSteps h tr = 110"
    by (simp add: totalSteps_def)
  then have s: "stepsFromPower h tr = 1"
    by (simp add: stepsFromPower_def calculatePowerLevelFromSteps_div MAX_SAFE_INTEGER_def)
  with h have l: "totalPowerLevel h tr = 3"
    by (simp add: totalPowerLevel_def)
  have save: "\<exists>st'. refreshPower None None None None (Some p) h tr st = Inr st' \<and>
        power_entry st' (pokemon_id p) = Some 3 \<and>
        step_entry st' (pokemon_id p) = Some 110 \<and>
        getPowerLevel None (pokemon_id p) st' = Inr 3 \<and>
        getStepProgress None (pokemon_id p) st' = Inr 110"
    by (simp add: refreshPower_def savePowerLevel_returns saveStepProgress_returns and_then_def
        getPowerLevel_returns getStepProgress_returns t l power_entry_def step_entry_def
        parse_or_empty_def or_zero_def)
  have accrue: "\<exists>st'. persist_effect rd wr pokemon h tr st = Inr st' \<and>
        POWER_LEVELS st' = POWER_LEVELS st \<and>
        (pokemon = Some p \<and> wr = None \<longrightarrow> step_entry st' (pokemon_id p) = Some 110)"
    by (cases pokemon; cases wr)
       (auto simp: persist_effect_def saveStepProgress_returns t step_entry_def parse_or_empty_def)
  from t s l save accrue show ?thesis by blast
qed

theorem C1_accrual_and_save_witness:
  "power_entry example_store (pokemon_id pikachu) = Some 2 \<and>
   step_entry example_store (pokemon_id pikachu) = Some 50 \<and>
   calculatedSteps (run True (start_events @ [Watch_callback 60]) initial) = 60 \<and>
   (\<exists>h. loadPowerLevel None None (Some pikachu) example_store power_initial = Inr h \<and>
      totalPowerLevel h (run True (start_events @ [Watch_callback 60]) initial) = 3 \<and>
      (\<exists>st'. refreshPower None None None None (Some pikachu) h
                (run True (start_events @ [Watch_callback 60]) initial) example_store = Inr st' \<and>
         power_entry st' 25 = Some 3 \<and> step_entry st' 25 = Some 110))"
proof -
  have a: "power_entry example_store (pokemon_id pikachu) = Some 2"
    by (simp add: example_store_def pikachu_def power_entry_def parse_or_empty_def)
  have b: "step_entry example_store (pokemon_id pikachu) = Some 50"
    by (simp add: example_store_def pikachu_def step_entry_def parse_or_empty_def)
  obtain h where c: "loadPowerLevel None None (Some pikachu) example_store power_initial = Inr h"
    by (simp add: loadPowerLevel_returns)
  have d: "calculatedSteps (run True (start_events @ [Watch_callback 60]) initial) = 60"
    by (simp add: start_events_def granted_response_def session_defs Let_def calculatedSteps_def)
  have e: "pokemon_id pikachu = 25" by (simp add: pikachu_def)
  note main = C1_accrual_and_save [OF a b c d, of None None None]
  from main have l: "totalPowerLevel h (run True (start_events @ [Watch_callback 60]) initial) = 3"
    by blast
  from main e obtain st' where
    "refreshPower None None None None (Some pikachu) h
       (run True (start_events @ [Watch_callback 60]) initial) example_store = Inr st'"
    "power_entry st' 25 = Some 3" "step_entry st' 25 = Some 110"
    by auto
  with a b c d l show ?thesis by blast
qed

end
